theory Spec2Isabelle
  imports Main
begin

section \<open>Markdown to HTML conversion (md\_to\_pdf.py)\<close>

text \<open>
  A Python \<open>str\<close> is modelled as a \<open>string\<close>, a list of characters. A character
  of the model is an 8-bit \<open>char\<close>, read as the code point of the same number, so the
  model covers the texts whose code points are below 256.
\<close>

subsection \<open>Characters and string primitives\<close>

definition newline :: char where
  "newline = CHR 0x0A"

definition carriage_return :: char where
  "carriage_return = CHR 0x0D"

text \<open>
  \<open>str.isspace\<close> on one character, which is also what \<open>\s\<close> matches in a
  \<open>str\<close> pattern: tab, line feed, vertical tab, form feed, carriage return, the
  separators 0x1C to 0x1F, space, NEL (0x85) and the no-break space (0xA0).
\<close>

definition isspace :: "char \<Rightarrow> bool" where
  "isspace c \<longleftrightarrow> c \<in> set [CHR 0x09, CHR 0x0A, CHR 0x0B, CHR 0x0C, CHR 0x0D,
     CHR 0x1C, CHR 0x1D, CHR 0x1E, CHR 0x1F, CHR 0x20, CHR 0x85, CHR 0xA0]"

text \<open>\<open>s.strip()\<close>: the whitespace at both ends is removed.\<close>

definition strip :: "string \<Rightarrow> string" where
  "strip s = rev (dropWhile isspace (rev (dropWhile isspace s)))"

text \<open>\<open>s.startswith(p)\<close>.\<close>

definition startswith :: "string \<Rightarrow> string \<Rightarrow> bool" where
  "startswith s p \<longleftrightarrow> take (length p) s = p"

text \<open>\<open>sep.join(xs)\<close>.\<close>

fun join :: "string \<Rightarrow> string list \<Rightarrow> string" where
  "join sep [] = []"
| "join sep [x] = x"
| "join sep (x # y # ys) = x @ sep @ join sep (y # ys)"

text \<open>
  \<open>s.split('\n')\<close>: the pieces between the line feeds; the result is never empty,
  and the empty text gives one empty piece.
\<close>

fun split_lines :: "string \<Rightarrow> string list" where
  "split_lines [] = [[]]"
| "split_lines (c # cs) =
     (if c = newline then [] # split_lines cs
      else (case split_lines cs of
              [] \<Rightarrow> [[c]]
            | l # ls \<Rightarrow> (c # l) # ls))"

text \<open>\<open>str(n)\<close> of a natural number, as the f-string prints the heading level.\<close>

fun digit_char :: "nat \<Rightarrow> char" where
  "digit_char n = char_of (48 + n)"

function str_nat :: "nat \<Rightarrow> string" where
  "str_nat n = (if n < 10 then [digit_char n] else str_nat (n div 10) @ [digit_char (n mod 10)])"
  by pat_completeness auto
termination
  by (relation "measure id") auto

declare str_nat.simps [simp del]

subsection \<open>The inline formatter\<close>

text \<open>
  Each of the three passes of \<open>process_inline\<close> is \<open>re.sub\<close> with a pattern of
  the shape: an opening delimiter (one of several alternatives, captured), the lazy group
  \<open>(.*?)\<close>, and the same delimiter again.

  \<open>find_close d rest\<close> is the lazy group followed by the closing delimiter \<open>d\<close>, run
  on the text after the opening delimiter: the closing delimiter is tried first; when it
  does not match here the group takes one more character, which must not be a line feed
  (\<open>.\<close> without DOTALL). The result is the group and the text after the match.
\<close>

fun find_close :: "string \<Rightarrow> string \<Rightarrow> (string \<times> string) option" where
  "find_close d [] = (if d = [] then Some ([], []) else None)"
| "find_close d (c # cs) =
     (if startswith (c # cs) d then Some ([], drop (length d) (c # cs))
      else if c = newline then None
      else (case find_close d cs of
              None \<Rightarrow> None
            | Some (inner, r) \<Rightarrow> Some (c # inner, r)))"

text \<open>
  \<open>match_at ds text\<close> is an attempt to match the pattern at the start of \<open>text\<close>:
  the alternatives \<open>ds\<close> of the opening delimiter are tried in order, and the matcher
  backtracks to the next alternative when the rest of the pattern fails.
\<close>

fun match_at :: "string list \<Rightarrow> string \<Rightarrow> (string \<times> string) option" where
  "match_at [] text = None"
| "match_at (d # ds) text =
     (if startswith text d then
        (case find_close d (drop (length d) text) of
           Some m \<Rightarrow> Some m
         | None \<Rightarrow> match_at ds text)
      else match_at ds text)"

lemma find_close_length:
  "find_close d s = Some (inner, r) \<Longrightarrow> length r \<le> length s"
  by (induction s arbitrary: inner) (auto split: if_splits option.splits)

lemma match_at_length:
  "\<forall>d \<in> set ds. d \<noteq> [] \<Longrightarrow> match_at ds text = Some (inner, r) \<Longrightarrow> length r < length text"
proof (induction ds)
  case Nil
  then show ?case by simp
next
  case (Cons d ds)
  show ?case
  proof (cases "startswith text d \<and> find_close d (drop (length d) text) \<noteq> None")
    case True
    then have fc: "find_close d (drop (length d) text) = Some (inner, r)"
      using Cons.prems(2) by auto
    have "d \<noteq> []" using Cons.prems(1) by simp
    moreover have "length d \<le> length text"
      using True by (metis startswith_def length_take min.cobounded2 min_def nat_le_linear)
    ultimately show ?thesis
      using find_close_length [OF fc] by (cases d) auto
  next
    case False
    then have "match_at ds text = Some (inner, r)"
      using Cons.prems(2) by (auto split: if_splits option.splits)
    then show ?thesis using Cons by simp
  qed
qed

text \<open>
  \<open>re.sub\<close> scans the text from the left. Where the pattern matches, the match is
  replaced by the opening tag, the group and the closing tag, and the scan goes on after
  the match; where it does not, the character is copied and the scan moves one character
  on. A pattern whose delimiter is empty is outside what the program uses: there the
  text is returned as it is.
\<close>

function re_sub :: "string list \<Rightarrow> string \<Rightarrow> string \<Rightarrow> string \<Rightarrow> string" where
  "re_sub ds otag ctag [] = []"
| "re_sub ds otag ctag (c # cs) =
     (if [] \<in> set ds then c # cs
      else (case match_at ds (c # cs) of
              Some (inner, r) \<Rightarrow> otag @ inner @ ctag @ re_sub ds otag ctag r
            | None \<Rightarrow> c # re_sub ds otag ctag cs))"
  by pat_completeness auto
termination
proof (relation "measure (\<lambda>(ds, otag, ctag, text). length text)")
  show "wf (measure (\<lambda>(ds, otag, ctag, text). length text))" by simp
next
  fix ds :: "string list" and otag ctag :: string and c cs x2 x y
  assume "[] \<notin> set ds" "match_at ds (c # cs) = Some x2" "(x, y) = x2"
  then have "length y < length (c # cs)"
    using match_at_length [of ds "c # cs" x y] by auto
  then show "((ds, otag, ctag, y), (ds, otag, ctag, c # cs))
      \<in> measure (\<lambda>(ds, otag, ctag, text). length text)" by simp
next
  fix ds :: "string list" and otag ctag :: string and c :: char and cs :: string
  show "((ds, otag, ctag, cs), (ds, otag, ctag, c # cs))
      \<in> measure (\<lambda>(ds, otag, ctag, text). length text)" by simp
qed

definition process_inline :: "string \<Rightarrow> string" where
  "process_inline text =
     (let text1 = re_sub [''**'', ''__''] ''<strong>'' ''</strong>'' text;
          text2 = re_sub [''*'', ''_''] ''<em>'' ''</em>'' text1;
          text3 = re_sub [[CHR 0x60]] ''<code>'' ''</code>'' text2
      in text3)"

subsection \<open>The block segmenter\<close>

text \<open>
  The heading pattern \<open>^(#{1,6})\s+(.*)\<close>, matched at the start of the stripped
  line. The greedy \<open>#{1,6}\<close> first takes as many \<open>#\<close> as there are, six at
  most, and gives them back one by one while the rest of the pattern fails;
  \<open>try_hashes k s\<close> is the attempt with \<open>k\<close> of them taken. After them
  \<open>\s+\<close> needs one whitespace character and takes the whole run, and \<open>(.*)\<close>
  takes the characters up to the next line feed. The result is the two groups.
\<close>

fun try_hashes :: "nat \<Rightarrow> string \<Rightarrow> (string \<times> string) option" where
  "try_hashes 0 s = None"
| "try_hashes (Suc k) s =
     (let rest = drop (Suc k) s in
      if rest \<noteq> [] \<and> isspace (hd rest)
      then Some (take (Suc k) s, takeWhile (\<lambda>c. c \<noteq> newline) (dropWhile isspace rest))
      else try_hashes k s)"

definition header_match :: "string \<Rightarrow> (string \<times> string) option" where
  "header_match s = try_hashes (length (takeWhile (\<lambda>c. c = CHR ''#'') (take 6 s))) s"

text \<open>
  The state of the loop of \<open>md_to_html\<close>: the fragments emitted so far and the two
  pending buffers, which the nested function \<open>flush\<close> shares with the loop.
\<close>

record conv_state =
  html_parts :: "string list"
  current_paragraph :: "string list"
  current_list :: "string list"

definition init_state :: conv_state where
  "init_state = \<lparr>html_parts = [], current_paragraph = [], current_list = []\<rparr>"

definition flush_list :: "conv_state \<Rightarrow> conv_state" where
  "flush_list st =
     (if current_list st \<noteq> []
      then st\<lparr>html_parts := html_parts st @ [''<ul>'' @ concat (current_list st) @ ''</ul>''],
              current_list := []\<rparr>
      else st)"

definition flush_paragraph :: "conv_state \<Rightarrow> conv_state" where
  "flush_paragraph st =
     (if current_paragraph st \<noteq> []
      then (let p_content = strip (join '' '' (current_paragraph st));
                st' = (if p_content \<noteq> []
                       then st\<lparr>html_parts := html_parts st @
                                 [''<p>'' @ process_inline p_content @ ''</p>'']\<rparr>
                       else st)
            in st'\<lparr>current_paragraph := []\<rparr>)
      else st)"

definition flush :: "conv_state \<Rightarrow> conv_state" where
  "flush st = flush_paragraph (flush_list st)"

text \<open>The heading fragment and the list item fragment, as the f-strings build them.\<close>

definition heading_html :: "nat \<Rightarrow> string \<Rightarrow> string" where
  "heading_html level content =
     ''<h'' @ str_nat level @ ''>'' @ process_inline content @ ''</h'' @ str_nat level @ ''>''"

definition list_item_html :: "string \<Rightarrow> string" where
  "list_item_html stripped_line =
     ''<li>'' @ process_inline (strip (drop 2 stripped_line)) @ ''</li>''"

text \<open>One iteration of the loop over the lines.\<close>

definition process_line :: "conv_state \<Rightarrow> string \<Rightarrow> conv_state" where
  "process_line st line =
     (let stripped_line = strip line in
      if stripped_line = [] then flush st
      else (case header_match stripped_line of
              Some (hashes, rest) \<Rightarrow>
                (let st' = flush st;
                     level = length hashes;
                     content = strip rest
                 in st'\<lparr>html_parts := html_parts st' @ [heading_html level content]\<rparr>)
            | None \<Rightarrow>
                if startswith stripped_line ''- '' \<or> startswith stripped_line ''* ''
                then (let st' = (if current_paragraph st \<noteq> [] then flush st else st)
                      in st'\<lparr>current_list := current_list st' @ [list_item_html stripped_line]\<rparr>)
                else (let st' = (if current_list st \<noteq> [] then flush st else st)
                      in st'\<lparr>current_paragraph := current_paragraph st' @ [stripped_line]\<rparr>)))"

definition md_to_html :: "string \<Rightarrow> string" where
  "md_to_html md_text =
     join [newline] (html_parts (flush (foldl process_line init_state (split_lines md_text))))"

subsection \<open>Notions the properties are stated with\<close>

text \<open>The characters the inline patterns use as delimiters: asterisk, underscore, backtick.\<close>

definition delimiter_chars :: "char list" where
  "delimiter_chars = [CHR ''*'', CHR ''_'', CHR 0x60]"

text \<open>
  No delimiter character of the text has a partner: no line of the text holds the same
  delimiter character twice (the group \<open>(.*?)\<close> never crosses a line feed, so a
  partner on another line is none).
\<close>

definition unpaired :: "string \<Rightarrow> bool" where
  "unpaired s \<longleftrightarrow>
     (\<forall>c \<in> set delimiter_chars. \<forall>l \<in> set (split_lines s). count_list l c \<le> 1)"

text \<open>The number of \<open>#\<close> characters a line starts with.\<close>

definition leading_hashes :: "string \<Rightarrow> nat" where
  "leading_hashes s = length (takeWhile (\<lambda>c. c = CHR ''#'') s)"

text \<open>
  A heading line in the words of the specification: one to six leading \<open>#\<close>, then
  at least one whitespace character.
\<close>

definition is_heading_line :: "string \<Rightarrow> bool" where
  "is_heading_line s \<longleftrightarrow>
     1 \<le> leading_hashes s \<and> leading_hashes s \<le> 6 \<and>
     leading_hashes s < length s \<and> isspace (s ! leading_hashes s)"

text \<open>A list item line: the stripped line starts with a dash or an asterisk and a space.\<close>

definition is_list_item_line :: "string \<Rightarrow> bool" where
  "is_list_item_line line \<longleftrightarrow>
     startswith (strip line) ''- '' \<or> startswith (strip line) ''* ''"

text \<open>A plain text line: not blank, not a heading and not a list item.\<close>

definition is_plain_line :: "string \<Rightarrow> bool" where
  "is_plain_line line \<longleftrightarrow>
     strip line \<noteq> [] \<and> \<not> is_heading_line (strip line) \<and> \<not> is_list_item_line line"

text \<open>At most one of the two pending buffers holds something.\<close>

definition buffers_exclusive :: "conv_state \<Rightarrow> bool" where
  "buffers_exclusive st \<longleftrightarrow> current_paragraph st = [] \<or> current_list st = []"

text \<open>
  \<open>s.replace('\r\n', '\n')\<close>: every carriage return that a line feed follows is
  dropped, scanning from the left.
\<close>

fun replace_crlf :: "string \<Rightarrow> string" where
  "replace_crlf [] = []"
| "replace_crlf [c] = [c]"
| "replace_crlf (c # d # cs) =
     (if c = carriage_return \<and> d = newline then newline # replace_crlf cs
      else c # replace_crlf (d # cs))"

section \<open>Properties\<close>

subsection \<open>What a match of the inline patterns looks like\<close>

lemma find_close_split:
  "find_close d s = Some (inner, r) \<Longrightarrow> s = inner @ d @ r \<and> newline \<notin> set inner"
proof (induction s arbitrary: inner)
  case Nil
  then show ?case by (simp split: if_splits)
next
  case (Cons c cs)
  show ?case
  proof (cases "startswith (c # cs) d")
    case True
    then have "inner = []" "r = drop (length d) (c # cs)"
      using Cons.prems by simp_all
    moreover have "c # cs = d @ drop (length d) (c # cs)"
      using True unfolding startswith_def by (metis append_take_drop_id)
    ultimately show ?thesis by simp
  next
    case False
    then obtain inner' where fc: "find_close d cs = Some (inner', r)" and
        i: "inner = c # inner'" and c: "c \<noteq> newline"
      using Cons.prems by (auto split: if_splits option.splits)
    from Cons.IH [OF fc] i c show ?thesis by simp
  qed
qed

lemma match_at_split:
  "match_at ds text = Some (inner, r) \<Longrightarrow>
     \<exists>d \<in> set ds. text = d @ inner @ d @ r \<and> newline \<notin> set inner"
proof (induction ds)
  case Nil
  then show ?case by simp
next
  case (Cons d ds)
  show ?case
  proof (cases "startswith text d \<and> find_close d (drop (length d) text) \<noteq> None")
    case True
    then have fc: "find_close d (drop (length d) text) = Some (inner, r)"
      using Cons.prems by auto
    have "text = d @ drop (length d) text"
      using True unfolding startswith_def by (metis append_take_drop_id)
    with find_close_split [OF fc] have "text = d @ inner @ d @ r \<and> newline \<notin> set inner"
      by simp
    then show ?thesis by simp
  next
    case False
    then have "match_at ds text = Some (inner, r)"
      using Cons.prems by (auto split: if_splits option.splits)
    from Cons.IH [OF this] show ?thesis by auto
  qed
qed



lemma split_lines_not_Nil: "split_lines s \<noteq> []"
  by (induction s) (auto split: list.splits)

lemma split_lines_append:
  "newline \<notin> set a \<Longrightarrow> split_lines (a @ b) = (a @ hd (split_lines b)) # tl (split_lines b)"
proof (induction a)
  case Nil
  then show ?case using split_lines_not_Nil [of b] by simp
next
  case (Cons c a)
  then show ?case by auto
qed

lemma split_lines_tail:
  assumes "\<forall>l \<in> set (split_lines (c # cs)). count_list l x \<le> Suc 0"
  shows "\<forall>l \<in> set (split_lines cs). count_list l x \<le> Suc 0"
proof (cases "c = newline")
  case True
  with assms show ?thesis by simp
next
  case False
  obtain l ls where sp: "split_lines cs = l # ls"
    using split_lines_not_Nil [of cs] by (cases "split_lines cs") auto
  with False have "split_lines (c # cs) = (c # l) # ls" by simp
  with assms have "count_list (c # l) x \<le> Suc 0" "\<forall>l \<in> set ls. count_list l x \<le> Suc 0"
    by simp_all
  then show ?thesis unfolding sp by (auto split: if_splits)
qed

lemma match_at_two_on_line:
  assumes m: "match_at ds s = Some (inner, r)" and ne: "[] \<notin> set ds"
    and nl: "\<forall>d \<in> set ds. newline \<notin> set d"
  shows "\<exists>d \<in> set ds. \<exists>l \<in> set (split_lines s). 2 \<le> count_list l (hd d)"
proof -
  from match_at_split [OF m] obtain d where d: "d \<in> set ds" "s = d @ inner @ d @ r"
    "newline \<notin> set inner" by blast
  have "d \<noteq> []" using d(1) ne by auto
  then obtain x xs where dx: "d = x # xs" by (cases d) auto
  have "newline \<notin> set (d @ inner @ d)" using d nl by simp
  from split_lines_append [OF this, of r]
  have "(d @ inner @ d @ hd (split_lines r)) \<in> set (split_lines s)"
    unfolding d(2) by simp
  moreover have "2 \<le> count_list (d @ inner @ d @ hd (split_lines r)) (hd d)"
    unfolding dx by simp
  ultimately show ?thesis using d(1) by blast
qed

lemma re_sub_no_match:
  assumes "[] \<notin> set ds" "\<forall>d \<in> set ds. newline \<notin> set d"
    "\<forall>d \<in> set ds. \<forall>l \<in> set (split_lines s). count_list l (hd d) \<le> Suc 0"
  shows "re_sub ds otag ctag s = s"
  using assms(3)
proof (induction s)
  case Nil
  then show ?case by simp
next
  case (Cons c cs)
  have "match_at ds (c # cs) = None"
  proof (rule ccontr)
    assume "match_at ds (c # cs) \<noteq> None"
    then obtain inner r where "match_at ds (c # cs) = Some (inner, r)" by auto
    from match_at_two_on_line [OF this assms(1,2)] Cons.prems show False by fastforce
  qed
  moreover have "re_sub ds otag ctag cs = cs"
    using Cons.prems split_lines_tail by (intro Cons.IH) blast
  ultimately show ?case using assms(1) by simp
qed

subsection \<open>Stripping\<close>

lemma not_isspace_hash: "\<not> isspace (CHR ''#'')"
  by (simp add: isspace_def)

lemma isspace_cr: "isspace carriage_return"
  by (simp add: isspace_def carriage_return_def)

lemma strip_eq_Nil_iff: "strip s = [] \<longleftrightarrow> (\<forall>c \<in> set s. isspace c)"
proof
  assume "strip s = []"
  then have "\<forall>c \<in> set (dropWhile isspace s). isspace c"
    by (simp add: strip_def)
  then have "dropWhile isspace s = []"
    by (metis hd_dropWhile list.set_sel(1))
  then show "\<forall>c \<in> set s. isspace c" by simp
next
  assume "\<forall>c \<in> set s. isspace c"
  then have "dropWhile isspace s = []" by simp
  then show "strip s = []" by (simp add: strip_def del: dropWhile_eq_Nil_conv)
qed

lemma strip_snoc_space:
  assumes c: "isspace c"
  shows "strip (s @ [c]) = strip s"
proof (cases "\<forall>x \<in> set s. isspace x")
  case True
  with c have "strip (s @ [c]) = []" "strip s = []"
    by (simp_all add: strip_eq_Nil_iff)
  then show ?thesis by simp
next
  case False
  then obtain x where "x \<in> set s" "\<not> isspace x" by auto
  then have "dropWhile isspace (s @ [c]) = dropWhile isspace s @ [c]"
    by (rule dropWhile_append1)
  with c show ?thesis by (simp add: strip_def)
qed

lemma strip_dropWhile: "strip (dropWhile isspace s) = strip s"
  by (simp add: strip_def)

lemma strip_has_nonspace:
  assumes "strip s \<noteq> []"
  shows "\<exists>c \<in> set (strip s). \<not> isspace c"
proof -
  let ?t = "dropWhile isspace (rev (dropWhile isspace s))"
  from assms have "?t \<noteq> []" by (simp add: strip_def)
  then have "\<not> isspace (hd ?t)" "hd ?t \<in> set ?t"
    by (rule hd_dropWhile, rule list.set_sel(1))
  then show ?thesis by (auto simp: strip_def)
qed

subsection \<open>The heading pattern\<close>

lemma leading_hashes_le: "leading_hashes s \<le> length s"
  by (simp add: leading_hashes_def length_takeWhile_le)

lemma leading_hashes_nth:
  assumes "i < leading_hashes s"
  shows "s ! i = CHR ''#''"
proof -
  let ?t = "takeWhile (\<lambda>c. c = CHR ''#'') s"
  have i: "i < length ?t" using assms by (simp add: leading_hashes_def)
  then have "?t ! i \<in> set ?t" by (rule nth_mem)
  then have "?t ! i = CHR ''#''" by (auto dest: set_takeWhileD)
  with takeWhile_nth [OF i] show ?thesis by simp
qed

lemma takeWhile_take_length:
  "length (takeWhile P (take k s)) = min k (length (takeWhile P s))"
proof (induction s arbitrary: k)
  case Nil
  then show ?case by simp
next
  case (Cons c s)
  then show ?case by (cases k) simp_all
qed

lemma try_hashes_below: "k < leading_hashes s \<Longrightarrow> try_hashes k s = None"
proof (induction k)
  case 0
  then show ?case by simp
next
  case (Suc k)
  have lt: "Suc k < length s" using Suc.prems leading_hashes_le [of s] by simp
  then have "hd (drop (Suc k) s) = s ! Suc k" by (simp add: hd_drop_conv_nth)
  then have "\<not> isspace (hd (drop (Suc k) s))"
    using leading_hashes_nth [OF Suc.prems] not_isspace_hash by simp
  moreover have "try_hashes k s = None" using Suc by simp
  ultimately show ?case by (simp add: Let_def)
qed

lemma try_hashes_at:
  assumes "leading_hashes s = Suc k"
  shows "try_hashes (Suc k) s =
    (if Suc k < length s \<and> isspace (s ! Suc k)
     then Some (take (Suc k) s, takeWhile (\<lambda>c. c \<noteq> newline) (dropWhile isspace (drop (Suc k) s)))
     else None)"
proof -
  have "try_hashes k s = None" using assms by (intro try_hashes_below) simp
  moreover have "Suc k < length s \<Longrightarrow> hd (drop (Suc k) s) = s ! Suc k"
    by (simp add: hd_drop_conv_nth)
  ultimately show ?thesis by (auto simp: Let_def)
qed

lemma header_match_eq:
  "header_match s =
    (if is_heading_line s
     then Some (take (leading_hashes s) s,
                takeWhile (\<lambda>c. c \<noteq> newline) (dropWhile isspace (drop (leading_hashes s) s)))
     else None)"
proof -
  let ?n = "leading_hashes s"
  have k0: "header_match s = try_hashes (min 6 ?n) s"
    by (simp add: header_match_def takeWhile_take_length leading_hashes_def)
  consider "?n = 0" | "1 \<le> ?n" "?n \<le> 6" | "6 < ?n" by linarith
  then show ?thesis
  proof cases
    case 1
    then show ?thesis by (simp add: k0 is_heading_line_def)
  next
    case 2
    then obtain k where k: "?n = Suc k" by (cases ?n) auto
    with 2 have "min 6 ?n = Suc k" by simp
    then show ?thesis
      using try_hashes_at [OF k] 2 k by (simp add: k0 is_heading_line_def)
  next
    case 3
    then have "try_hashes (min 6 ?n) s = None" by (intro try_hashes_below) simp
    with 3 show ?thesis by (simp add: k0 is_heading_line_def)
  qed
qed


lemma take_leading_hashes:
  "take (leading_hashes s) s = replicate (leading_hashes s) (CHR ''#'')"
proof -
  let ?t = "takeWhile (\<lambda>c. c = CHR ''#'') s"
  have "take (leading_hashes s) s = ?t"
    by (simp add: leading_hashes_def takeWhile_eq_take [symmetric])
  moreover have "replicate (length ?t) (CHR ''#'') = ?t"
    by (rule replicate_length_same) (auto dest: set_takeWhileD)
  ultimately show ?thesis by (simp add: leading_hashes_def)
qed

subsection \<open>The inline formatter on unpaired delimiters\<close>

lemma process_inline_unpaired:
  assumes "unpaired s"
  shows "process_inline s = s"
proof -
  have u: "\<And>c. c \<in> set delimiter_chars \<Longrightarrow>
      \<forall>l \<in> set (split_lines s). count_list l c \<le> Suc 0"
    using assms by (simp add: unpaired_def)
  have nl: "newline \<noteq> CHR ''*''" "newline \<noteq> CHR ''_''" "newline \<noteq> CHR 0x60"
    by (simp_all add: newline_def)
  have 1: "re_sub [''**'', ''__''] ''<strong>'' ''</strong>'' s = s"
    using u nl by (intro re_sub_no_match) (simp_all add: delimiter_chars_def)
  have 2: "re_sub [''*'', ''_''] ''<em>'' ''</em>'' s = s"
    using u nl by (intro re_sub_no_match) (simp_all add: delimiter_chars_def)
  have 3: "re_sub [[CHR 0x60]] ''<code>'' ''</code>'' s = s"
    using u nl by (intro re_sub_no_match) (simp_all add: delimiter_chars_def)
  show ?thesis by (simp add: process_inline_def 1 2 3 del: re_sub.simps)
qed



subsection \<open>One step of the segmenter\<close>

lemma split_lines_subset: "l \<in> set (split_lines s) \<Longrightarrow> set l \<subseteq> set s"
proof (induction s arbitrary: l)
  case Nil
  then show ?case by simp
next
  case (Cons c cs)
  obtain h t where sp: "split_lines cs = h # t"
    using split_lines_not_Nil [of cs] by (cases "split_lines cs") auto
  show ?case
  proof (cases "c = newline")
    case True
    with Cons show ?thesis by auto
  next
    case False
    with sp Cons.prems have "l = c # h \<or> l \<in> set t" by simp
    then show ?thesis
    proof
      assume "l = c # h"
      moreover have "set h \<subseteq> set cs" using Cons.IH [of h] sp by simp
      ultimately show ?thesis by auto
    next
      assume "l \<in> set t"
      then have "set l \<subseteq> set cs" using Cons.IH [of l] sp by simp
      then show ?thesis by auto
    qed
  qed
qed

lemma no_delimiters_unpaired:
  assumes "set s \<inter> set delimiter_chars = {}"
  shows "unpaired s"
  unfolding unpaired_def
proof (intro ballI)
  fix c l
  assume c: "c \<in> set delimiter_chars" and l: "l \<in> set (split_lines s)"
  from split_lines_subset [OF l] assms c have "c \<notin> set l" by auto
  then show "count_list l c \<le> 1" by (simp add: count_list_0_iff)
qed

lemma flush_buffers:
  "current_paragraph (flush st) = []" "current_list (flush st) = []"
  by (simp_all add: flush_def flush_paragraph_def flush_list_def Let_def)

lemma list_item_not_heading:
  assumes "is_list_item_line line"
  shows "strip line \<noteq> []" "\<not> is_heading_line (strip line)"
proof -
  from assms obtain c cs where s: "strip line = c # cs" and c: "c = CHR ''-'' \<or> c = CHR ''*''"
    by (cases "strip line") (auto simp: is_list_item_line_def startswith_def)
  show "strip line \<noteq> []" using s by simp
  have "leading_hashes (strip line) = 0" using s c by (auto simp: leading_hashes_def)
  then show "\<not> is_heading_line (strip line)" by (simp add: is_heading_line_def)
qed

lemma heading_not_blank: "is_heading_line s \<Longrightarrow> s \<noteq> []"
  by (auto simp: is_heading_line_def)

lemma process_line_cases:
  "process_line st line =
    (if strip line = [] then flush st
     else if is_heading_line (strip line) then
       (flush st)\<lparr>html_parts := html_parts (flush st) @
          [heading_html (leading_hashes (strip line))
             (strip (takeWhile (\<lambda>c. c \<noteq> newline)
                (dropWhile isspace (drop (leading_hashes (strip line)) (strip line)))))]\<rparr>
     else if is_list_item_line line then
       (if current_paragraph st \<noteq> [] then flush st else st)
         \<lparr>current_list := current_list (if current_paragraph st \<noteq> [] then flush st else st)
            @ [list_item_html (strip line)]\<rparr>
     else
       (if current_list st \<noteq> [] then flush st else st)
         \<lparr>current_paragraph := current_paragraph (if current_list st \<noteq> [] then flush st else st)
            @ [strip line]\<rparr>)"
  using leading_hashes_le [of "strip line"]
  by (simp add: process_line_def header_match_eq is_list_item_line_def Let_def min_def)

subsection \<open>Runs of the segmenter\<close>

lemma process_line_exclusive: "buffers_exclusive (process_line st line)"
  by (simp add: process_line_cases buffers_exclusive_def flush_buffers)

lemma run_exclusive: "buffers_exclusive st \<Longrightarrow> buffers_exclusive (foldl process_line st ls)"
proof (induction ls arbitrary: st)
  case Nil
  then show ?case by simp
next
  case (Cons l ls)
  have "buffers_exclusive (process_line st l)" by (rule process_line_exclusive)
  then show ?case using Cons.IH by simp
qed

lemma run_plain:
  assumes "\<forall>l \<in> set ls. is_plain_line l" "current_list st = []"
  shows "foldl process_line st ls = st\<lparr>current_paragraph := current_paragraph st @ map strip ls\<rparr>"
  using assms
proof (induction ls arbitrary: st)
  case Nil
  then show ?case by simp
next
  case (Cons l ls)
  have step: "process_line st l = st\<lparr>current_paragraph := current_paragraph st @ [strip l]\<rparr>"
    using Cons.prems by (simp add: process_line_cases is_plain_line_def)
  have "foldl process_line (process_line st l) ls =
      (process_line st l)\<lparr>current_paragraph := current_paragraph (process_line st l) @ map strip ls\<rparr>"
    using Cons.prems by (intro Cons.IH) (simp_all add: step)
  then show ?case by (simp add: step)
qed

lemma run_list_items:
  assumes "\<forall>l \<in> set ls. is_list_item_line l" "current_paragraph st = []"
  shows "foldl process_line st ls =
    st\<lparr>current_list := current_list st @ map (\<lambda>l. list_item_html (strip l)) ls\<rparr>"
  using assms
proof (induction ls arbitrary: st)
  case Nil
  then show ?case by simp
next
  case (Cons l ls)
  have li: "is_list_item_line l" using Cons.prems by simp
  have step: "process_line st l = st\<lparr>current_list := current_list st @ [list_item_html (strip l)]\<rparr>"
    using Cons.prems list_item_not_heading [OF li] li by (simp add: process_line_cases)
  have "foldl process_line (process_line st l) ls =
      (process_line st l)\<lparr>current_list := current_list (process_line st l)
         @ map (\<lambda>l. list_item_html (strip l)) ls\<rparr>"
    using Cons.prems by (intro Cons.IH) (simp_all add: step)
  then show ?case by (simp add: step)
qed

lemma join_first: "set x \<subseteq> set (join sep (x # xs))"
  by (cases xs) auto

lemma paragraph_content_nonempty:
  assumes "ls \<noteq> []" "\<forall>l \<in> set ls. strip l \<noteq> []"
  shows "strip (join '' '' (map strip ls)) \<noteq> []"
proof -
  from assms obtain l ls' where ls: "ls = l # ls'" by (cases ls) auto
  with assms have "strip l \<noteq> []" by simp
  from strip_has_nonspace [OF this] obtain c where c: "c \<in> set (strip l)" "\<not> isspace c" by blast
  have "c \<in> set (join '' '' (map strip ls))"
    using c(1) join_first [of "strip l" "'' ''" "map strip ls'"] by (auto simp: ls)
  with c(2) show ?thesis by (auto simp: strip_eq_Nil_iff)
qed

subsection \<open>Line endings\<close>

lemma process_line_strip:
  "strip l = strip l' \<Longrightarrow> process_line st l = process_line st l'"
  by (simp add: process_line_def)

lemma run_strip:
  "map strip ls = map strip ls' \<Longrightarrow> foldl process_line st ls = foldl process_line st ls'"
proof (induction ls arbitrary: ls' st)
  case Nil
  then show ?case by simp
next
  case (Cons l ls)
  then obtain l' ls'' where ls': "ls' = l' # ls''" by (cases ls') auto
  with Cons.prems have "strip l = strip l'" "map strip ls = map strip ls''" by simp_all
  then show ?case
    using Cons.IH [of ls''] process_line_strip [of l l' st] by (simp add: ls')
qed

lemma split_lines_Cons:
  "split_lines (c # cs) =
    (if c = newline then [] # split_lines cs
     else (c # hd (split_lines cs)) # tl (split_lines cs))"
  using split_lines_not_Nil [of cs] by (cases "split_lines cs") simp_all

lemma split_lines_replace_crlf:
  "list_all2 (\<lambda>a b. b = a \<or> b = a @ [carriage_return])
     (split_lines (replace_crlf s)) (split_lines s)"
proof (induction s rule: replace_crlf.induct)
  case 1
  then show ?case by simp
next
  case (2 c)
  then show ?case by (simp add: list_all2_refl)
next
  case (3 c d cs)
  let ?R = "\<lambda>a b. b = a \<or> b = a @ [carriage_return]"
  have nn: "carriage_return \<noteq> newline" by (simp add: carriage_return_def newline_def)
  show ?case
  proof (cases "c = carriage_return \<and> d = newline")
    case True
    then have "list_all2 ?R (split_lines (replace_crlf cs)) (split_lines cs)"
      using 3 by simp
    moreover have "split_lines (replace_crlf (c # d # cs)) = [] # split_lines (replace_crlf cs)"
      using True by simp
    moreover have "split_lines (c # d # cs) = [carriage_return] # split_lines cs"
      using True nn by simp
    ultimately show ?thesis by simp
  next
    case False
    then have ih: "list_all2 ?R (split_lines (replace_crlf (d # cs))) (split_lines (d # cs))"
      using 3 by simp
    have r: "replace_crlf (c # d # cs) = c # replace_crlf (d # cs)" using False by auto
    let ?A = "split_lines (replace_crlf (d # cs))" and ?B = "split_lines (d # cs)"
    obtain a as where A: "?A = a # as"
      using split_lines_not_Nil [of "replace_crlf (d # cs)"] by (cases ?A) auto
    obtain b bs where B: "?B = b # bs"
      using split_lines_not_Nil [of "d # cs"] by (cases ?B) auto
    from ih A B have ab: "?R a b" "list_all2 ?R as bs" by simp_all
    show ?thesis
    proof (cases "c = newline")
      case True
      have "split_lines (replace_crlf (c # d # cs)) = [] # ?A"
        unfolding r using True split_lines_Cons [of c "replace_crlf (d # cs)"]
        by (simp del: split_lines.simps replace_crlf.simps)
      moreover have "split_lines (c # d # cs) = [] # ?B"
        using True split_lines_Cons [of c "d # cs"] by (simp del: split_lines.simps)
      ultimately show ?thesis using ih by (simp del: split_lines.simps replace_crlf.simps)
    next
      case False
      have "split_lines (replace_crlf (c # d # cs)) = (c # a) # as"
        unfolding r using False A split_lines_Cons [of c "replace_crlf (d # cs)"]
        by (simp del: split_lines.simps replace_crlf.simps)
      moreover have "split_lines (c # d # cs) = (c # b) # bs"
        using False B split_lines_Cons [of c "d # cs"] by (simp del: split_lines.simps)
      ultimately show ?thesis using ab by (auto simp del: split_lines.simps replace_crlf.simps)
    qed
  qed
qed

lemma strip_lines_replace_crlf:
  "map strip (split_lines (replace_crlf s)) = map strip (split_lines s)"
proof -
  have "list_all2 (\<lambda>a b. strip a = strip b) (split_lines (replace_crlf s)) (split_lines s)"
    using split_lines_replace_crlf [of s]
    by (rule list_all2_mono) (auto simp: strip_snoc_space isspace_cr)
  then show ?thesis
    by (induction rule: list_all2_induct) simp_all
qed

subsection \<open>Whole documents\<close>

lemma strip_subset: "set (strip s) \<subseteq> set s"
proof
  fix c
  assume "c \<in> set (strip s)"
  then have "c \<in> set (dropWhile isspace (rev (dropWhile isspace s)))"
    by (simp add: strip_def)
  then have "c \<in> set (dropWhile isspace s)" by (auto dest: set_dropWhileD)
  then show "c \<in> set s" by (rule set_dropWhileD)
qed

lemma heading_content:
  assumes "newline \<notin> set s"
  shows "strip (takeWhile (\<lambda>c. c \<noteq> newline) (dropWhile isspace (drop n s))) = strip (drop n s)"
proof -
  have "set (dropWhile isspace (drop n s)) \<subseteq> set s"
    by (auto dest: set_dropWhileD in_set_dropD)
  with assms have "\<forall>c \<in> set (dropWhile isspace (drop n s)). c \<noteq> newline" by auto
  then have "takeWhile (\<lambda>c. c \<noteq> newline) (dropWhile isspace (drop n s))
      = dropWhile isspace (drop n s)"
    by (simp add: takeWhile_eq_all_conv)
  then show ?thesis by (simp only: strip_dropWhile)
qed

lemma flush_paragraph_only:
  assumes "current_paragraph st \<noteq> []" "current_list st = []"
  shows "flush st = st\<lparr>html_parts := html_parts st @
      (if strip (join '' '' (current_paragraph st)) = [] then []
       else [''<p>'' @ process_inline (strip (join '' '' (current_paragraph st))) @ ''</p>'']),
      current_paragraph := []\<rparr>"
  using assms by (simp add: flush_def flush_list_def flush_paragraph_def Let_def)

lemma flush_list_only:
  assumes "current_list st \<noteq> []" "current_paragraph st = []"
  shows "flush st = st\<lparr>html_parts := html_parts st @
      [''<ul>'' @ concat (current_list st) @ ''</ul>''], current_list := []\<rparr>"
  using assms by (simp add: flush_def flush_list_def flush_paragraph_def Let_def)

lemma md_to_html_plain:
  assumes "\<forall>l \<in> set (split_lines md_text). is_plain_line l"
  shows "md_to_html md_text =
    ''<p>'' @ process_inline (strip (join '' '' (map strip (split_lines md_text)))) @ ''</p>''"
proof -
  let ?ls = "split_lines md_text"
  let ?st = "init_state\<lparr>current_paragraph := map strip ?ls\<rparr>"
  have run: "foldl process_line init_state ?ls = ?st"
    using run_plain [OF assms, of init_state] by (simp add: init_state_def)
  have ne: "?ls \<noteq> []" by (rule split_lines_not_Nil)
  have "\<forall>l \<in> set ?ls. strip l \<noteq> []" using assms by (simp add: is_plain_line_def)
  from paragraph_content_nonempty [OF ne this]
  have pc: "strip (join '' '' (map strip ?ls)) \<noteq> []" .
  have "flush ?st = ?st\<lparr>html_parts := html_parts ?st @
      (if strip (join '' '' (current_paragraph ?st)) = [] then []
       else [''<p>'' @ process_inline (strip (join '' '' (current_paragraph ?st))) @ ''</p>'']),
      current_paragraph := []\<rparr>"
    using ne by (intro flush_paragraph_only) (simp_all add: init_state_def)
  then have "html_parts (flush ?st) =
      [''<p>'' @ process_inline (strip (join '' '' (map strip ?ls))) @ ''</p>'']"
    using pc by (simp add: init_state_def)
  then show ?thesis by (simp add: md_to_html_def run)
qed

lemma md_to_html_list_items:
  assumes "\<forall>l \<in> set (split_lines md_text). is_list_item_line l"
  shows "md_to_html md_text =
    ''<ul>'' @ concat (map (\<lambda>l. list_item_html (strip l)) (split_lines md_text)) @ ''</ul>''"
proof -
  let ?ls = "split_lines md_text"
  let ?st = "init_state\<lparr>current_list := map (\<lambda>l. list_item_html (strip l)) ?ls\<rparr>"
  have run: "foldl process_line init_state ?ls = ?st"
    using run_list_items [OF assms, of init_state] by (simp add: init_state_def)
  have ne: "?ls \<noteq> []" by (rule split_lines_not_Nil)
  have "flush ?st = ?st\<lparr>html_parts := html_parts ?st @
      [''<ul>'' @ concat (current_list ?st) @ ''</ul>''], current_list := []\<rparr>"
    using ne by (intro flush_list_only) (simp_all add: init_state_def)
  then have "html_parts (flush ?st) =
      [''<ul>'' @ concat (map (\<lambda>l. list_item_html (strip l)) ?ls) @ ''</ul>'']"
    by (simp add: init_state_def)
  then show ?thesis by (simp add: md_to_html_def run)
qed

lemma html_parts_step:
  assumes "\<not> is_heading_line (strip line)"
  shows "html_parts (process_line st line) = html_parts st \<or>
         html_parts (process_line st line) = html_parts (flush st)"
  using assms by (simp add: process_line_cases)

subsection \<open>Matches lengthen the text\<close>



subsection \<open>Two partners on a line force a match\<close>




subsection \<open>Fixed points and lines of the inline formatter\<close>





subsection \<open>Spans of the strong and emphasis passes\<close>

lemma find_close_first:
  assumes "d \<noteq> []" "set w \<inter> set d = {}" "newline \<notin> set w"
  shows "find_close d (w @ d @ r) = Some (w, r)"
  using assms(2,3)
proof (induction w)
  case Nil
  obtain x xs where d: "d = x # xs" using assms(1) by (cases d) auto
  show ?case by (simp add: d startswith_def)
next
  case (Cons y w)
  obtain x xs where d: "d = x # xs" using assms(1) by (cases d) auto
  have "y \<noteq> x" using Cons.prems(1) d by auto
  then have "\<not> startswith (y # w @ d @ r) d" by (auto simp: d startswith_def)
  moreover have "find_close d (w @ d @ r) = Some (w, r)"
    using Cons by auto
  ultimately show ?case using Cons.prems(2) by auto
qed

lemma re_sub_span:
  assumes "[] \<notin> set ds" "d \<noteq> []" "match_at ds (d @ w @ d @ r) = Some (w, r)"
  shows "re_sub ds otag ctag (d @ w @ d @ r) = otag @ w @ ctag @ re_sub ds otag ctag r"
proof -
  obtain x xs where "d @ w @ d @ r = x # xs" using assms(2) by (cases d) auto
  with assms(1,3) show ?thesis by simp
qed

lemma strong_span:
  assumes "d = ''**'' \<or> d = ''__''" "set w \<inter> set d = {}" "newline \<notin> set w"
  shows "re_sub [''**'', ''__''] otag ctag (d @ w @ d @ r) =
    otag @ w @ ctag @ re_sub [''**'', ''__''] otag ctag r"
proof -
  have dn: "d \<noteq> []" using assms(1) by auto
  have fc: "find_close d (w @ d @ r) = Some (w, r)"
    using dn assms(2,3) by (rule find_close_first)
  have "match_at [''**'', ''__''] (d @ w @ d @ r) = Some (w, r)"
    using assms(1) fc by (auto simp: startswith_def)
  with dn show ?thesis by (intro re_sub_span) simp_all
qed

lemma em_span:
  assumes "d = ''*'' \<or> d = ''_''" "set w \<inter> set d = {}" "newline \<notin> set w"
  shows "re_sub [''*'', ''_''] otag ctag (d @ w @ d @ r) =
    otag @ w @ ctag @ re_sub [''*'', ''_''] otag ctag r"
proof -
  have dn: "d \<noteq> []" using assms(1) by auto
  have fc: "find_close d (w @ d @ r) = Some (w, r)"
    using dn assms(2,3) by (rule find_close_first)
  have "match_at [''*'', ''_''] (d @ w @ d @ r) = Some (w, r)"
    using assms(1) fc by (auto simp: startswith_def)
  with dn show ?thesis by (intro re_sub_span) simp_all
qed

lemma re_sub_no_delimiters:
  assumes "[] \<notin> set ds" "\<forall>d \<in> set ds. newline \<notin> set d" "\<forall>d \<in> set ds. hd d \<notin> set s"
  shows "re_sub ds otag ctag s = s"
proof (rule re_sub_no_match [OF assms(1,2)], intro ballI)
  fix d l
  assume "d \<in> set ds" "l \<in> set (split_lines s)"
  with assms(3) split_lines_subset [of l s] have "hd d \<notin> set l" by auto
  then show "count_list l (hd d) \<le> Suc 0" by (simp add: count_list_0_iff)
qed

subsection \<open>Single spans through the whole formatter\<close>

lemma split_lines_single: "newline \<notin> set a \<Longrightarrow> split_lines a = [a]"
  using split_lines_append [of a "[]"] by simp

lemma split_lines_tail_less:
  assumes "\<forall>l \<in> set (split_lines (c # cs)). count_list l x < n"
  shows "\<forall>l \<in> set (split_lines cs). count_list l x < n"
proof (cases "c = newline")
  case True
  with assms show ?thesis by simp
next
  case False
  obtain l ls where sp: "split_lines cs = l # ls"
    using split_lines_not_Nil [of cs] by (cases "split_lines cs") auto
  with False have "split_lines (c # cs) = (c # l) # ls" by simp
  with assms have "count_list (c # l) x < n" "\<forall>l \<in> set ls. count_list l x < n"
    by simp_all
  then show ?thesis unfolding sp by (auto split: if_splits)
qed

lemma strong_no_match:
  assumes "\<forall>l \<in> set (split_lines s). count_list l (CHR ''*'') < 4"
    "\<forall>l \<in> set (split_lines s). count_list l (CHR ''_'') < 4"
  shows "re_sub [''**'', ''__''] otag ctag s = s"
  using assms
proof (induction s)
  case Nil
  then show ?case by simp
next
  case (Cons c cs)
  let ?ds = "[''**'', ''__'']"
  have "match_at ?ds (c # cs) = None"
  proof (rule ccontr)
    assume "match_at ?ds (c # cs) \<noteq> None"
    then obtain inner r where "match_at ?ds (c # cs) = Some (inner, r)" by auto
    from match_at_split [OF this] obtain d where d: "d \<in> set ?ds"
      "c # cs = d @ inner @ d @ r" "newline \<notin> set inner" by blast
    have "newline \<notin> set (d @ inner @ d)" using d(1,3) by (auto simp: newline_def)
    from split_lines_append [OF this, of r]
    have l: "(d @ inner @ d @ hd (split_lines r)) \<in> set (split_lines (c # cs))"
      unfolding d(2) by simp
    from d(1) have "d = ''**'' \<or> d = ''__''" by simp
    then show False
    proof
      assume "d = ''**''"
      then have "4 \<le> count_list (d @ inner @ d @ hd (split_lines r)) (CHR ''*'')" by simp
      with Cons.prems(1) l show False by fastforce
    next
      assume "d = ''__''"
      then have "4 \<le> count_list (d @ inner @ d @ hd (split_lines r)) (CHR ''_'')" by simp
      with Cons.prems(2) l show False by fastforce
    qed
  qed
  moreover have "re_sub ?ds otag ctag cs = cs"
    using Cons.prems split_lines_tail_less by (intro Cons.IH) blast+
  ultimately show ?case by simp
qed

lemma process_inline_double:
  assumes "d = ''**'' \<or> d = ''__''" "set w \<inter> set delimiter_chars = {}" "newline \<notin> set w"
  shows "process_inline (d @ w @ d) = ''<strong>'' @ w @ ''</strong>''"
proof -
  have wd: "set w \<inter> set d = {}" using assms(1,2) by (auto simp: delimiter_chars_def)
  have 1: "re_sub [''**'', ''__''] ''<strong>'' ''</strong>'' (d @ w @ d) =
      ''<strong>'' @ w @ ''</strong>''"
    using strong_span [OF assms(1) wd assms(3), of "''<strong>''" "''</strong>''" "[]"] by simp
  have 2: "re_sub [''*'', ''_''] ''<em>'' ''</em>'' (''<strong>'' @ w @ ''</strong>'') =
      ''<strong>'' @ w @ ''</strong>''"
    using assms(2) by (intro re_sub_no_delimiters) (auto simp: delimiter_chars_def newline_def)
  have 3: "re_sub [[CHR 0x60]] ''<code>'' ''</code>'' (''<strong>'' @ w @ ''</strong>'') =
      ''<strong>'' @ w @ ''</strong>''"
    using assms(2) by (intro re_sub_no_delimiters) (auto simp: delimiter_chars_def newline_def)
  show ?thesis by (simp only: process_inline_def Let_def 1 2 3)
qed

lemma process_inline_single:
  assumes "d = ''*'' \<or> d = ''_''" "set w \<inter> set delimiter_chars = {}" "newline \<notin> set w"
  shows "process_inline (d @ w @ d) = ''<em>'' @ w @ ''</em>''"
proof -
  have wd: "set w \<inter> set d = {}" using assms(1,2) by (auto simp: delimiter_chars_def)
  have nl: "newline \<notin> set (d @ w @ d)" using assms(1,3) by (auto simp: newline_def)
  have cw: "count_list w (CHR ''*'') = 0" "count_list w (CHR ''_'') = 0"
    using assms(2) by (auto simp: count_list_0_iff delimiter_chars_def)
  have 1: "re_sub [''**'', ''__''] ''<strong>'' ''</strong>'' (d @ w @ d) = d @ w @ d"
    using assms(1) cw by (intro strong_no_match) (auto simp: split_lines_single [OF nl])
  have 2: "re_sub [''*'', ''_''] ''<em>'' ''</em>'' (d @ w @ d) = ''<em>'' @ w @ ''</em>''"
    using em_span [OF assms(1) wd assms(3), of "''<em>''" "''</em>''" "[]"] by simp
  have 3: "re_sub [[CHR 0x60]] ''<code>'' ''</code>'' (''<em>'' @ w @ ''</em>'') =
      ''<em>'' @ w @ ''</em>''"
    using assms(2) by (intro re_sub_no_delimiters) (auto simp: delimiter_chars_def newline_def)
  show ?thesis by (simp only: process_inline_def Let_def 1 2 3)
qed

section \<open>The claims\<close>

text \<open>
  C10. A later pass matches across the tags an earlier pass emitted: for
  \<open>**a`b** c`d\<close> the strong pass leaves the two backticks on either side of its
  closing tag, so the \<open><code>\<close> span opens inside the \<open><strong>\<close> element and
  closes outside it: the output is not properly nested.
\<close>

theorem code_span_crosses_strong:
  "re_sub [''**'', ''__''] ''<strong>'' ''</strong>''
       (''**a'' @ [CHR 0x60] @ ''b** c'' @ [CHR 0x60] @ ''d'') =
     ''<strong>a'' @ [CHR 0x60] @ ''b</strong> c'' @ [CHR 0x60] @ ''d'' \<and>
   process_inline (''**a'' @ [CHR 0x60] @ ''b** c'' @ [CHR 0x60] @ ''d'') =
     ''<strong>a<code>b</strong> c</code>d''"
  by (simp add: process_inline_def startswith_def newline_def)

text \<open>
  C1. The claim: the inline formatter is idempotent on every string. It is not: in
  \<open>*_*_\<close> the emphasis pass pairs the two asterisks, which leaves one underscore inside
  the span and one after it, and a second run pairs those two.
\<close>

theorem inline_not_idempotent:
  "process_inline (process_inline ''*_*_'') \<noteq> process_inline ''*_*_''"
  by code_simp

text \<open>
  C1, as amended. A second run changes nothing whenever the first output has no line
  with the same delimiter character twice, and so in particular whenever no delimiter
  character remains in it.
\<close>

theorem inline_idempotent_when_unpaired:
  "(unpaired (process_inline s) \<longrightarrow>
      process_inline (process_inline s) = process_inline s) \<and>
   (set (process_inline s) \<inter> set delimiter_chars = {} \<longrightarrow>
      process_inline (process_inline s) = process_inline s)"
  using process_inline_unpaired [of "process_inline s"]
    no_delimiters_unpaired [of "process_inline s"] by blast

theorem inline_idempotent_when_unpaired_witness:
  "unpaired (process_inline ''**a** b'') \<and>
   set (process_inline ''**a** b'') \<inter> set delimiter_chars = {} \<and>
   process_inline (process_inline ''**a** b'') = process_inline ''**a** b''"
proof -
  have v: "process_inline ''**a** b'' = ''<strong>a</strong> b''" by code_simp
  have u: "unpaired (process_inline ''**a** b'')" by code_simp
  have n: "set (process_inline ''**a** b'') \<inter> set delimiter_chars = {}"
    unfolding v by (simp add: delimiter_chars_def)
  from u n inline_idempotent_when_unpaired [of "''**a** b''"] show ?thesis by blast
qed




text \<open>
  C3. The heading pattern matches a stripped line exactly when the line starts with one
  to six \<open>#\<close> characters and a whitespace character follows them; its first group is
  then those \<open>#\<close> characters. For such a line (with no line feed in it, as every piece
  of the split text) the loop flushes and emits \<open><hN>...</hN>\<close>, where \<open>N\<close> is the
  number of \<open>#\<close> and the content is the inline-formatted, trimmed rest of the line. A
  line that is not a heading line adds nothing but what a flush emits. So
  \<open># Title\<close> and \<open>###### Deep\<close> give headings of level 1 and 6, and a line of seven
  \<open>#\<close> is a paragraph.
\<close>

theorem heading_classification:
  "header_match s =
     (if is_heading_line s
      then Some (replicate (leading_hashes s) (CHR ''#''),
                 takeWhile (\<lambda>c. c \<noteq> newline) (dropWhile isspace (drop (leading_hashes s) s)))
      else None) \<and>
   (is_heading_line (strip line) \<and> newline \<notin> set line \<longrightarrow>
      process_line st line =
        (flush st)\<lparr>html_parts := html_parts (flush st) @
           [''<h'' @ str_nat (leading_hashes (strip line)) @ ''>'' @
            process_inline (strip (drop (leading_hashes (strip line)) (strip line))) @
            ''</h'' @ str_nat (leading_hashes (strip line)) @ ''>'']\<rparr>) \<and>
   (\<not> is_heading_line (strip line) \<longrightarrow>
      html_parts (process_line st line) = html_parts st \<or>
      html_parts (process_line st line) = html_parts (flush st)) \<and>
   md_to_html ''# Title'' = ''<h1>Title</h1>'' \<and>
   md_to_html ''###### Deep'' = ''<h6>Deep</h6>'' \<and>
   \<not> is_heading_line ''####### TooDeep'' \<and>
   md_to_html ''####### TooDeep'' = ''<p>####### TooDeep</p>''"
proof (intro conjI impI)
  show "header_match s =
     (if is_heading_line s
      then Some (replicate (leading_hashes s) (CHR ''#''),
                 takeWhile (\<lambda>c. c \<noteq> newline) (dropWhile isspace (drop (leading_hashes s) s)))
      else None)"
    by (simp only: header_match_eq take_leading_hashes)
next
  assume a: "is_heading_line (strip line) \<and> newline \<notin> set line"
  then have "newline \<notin> set (strip line)" using strip_subset [of line] by auto
  from heading_content [OF this] a heading_not_blank [of "strip line"]
  show "process_line st line =
        (flush st)\<lparr>html_parts := html_parts (flush st) @
           [''<h'' @ str_nat (leading_hashes (strip line)) @ ''>'' @
            process_inline (strip (drop (leading_hashes (strip line)) (strip line))) @
            ''</h'' @ str_nat (leading_hashes (strip line)) @ ''>'']\<rparr>"
    by (simp add: process_line_cases heading_html_def)
next
  assume "\<not> is_heading_line (strip line)"
  then show "html_parts (process_line st line) = html_parts st \<or>
      html_parts (process_line st line) = html_parts (flush st)"
    by (rule html_parts_step)
next
  show "md_to_html ''# Title'' = ''<h1>Title</h1>''" by code_simp
next
  show "md_to_html ''###### Deep'' = ''<h6>Deep</h6>''" by code_simp
next
  show "\<not> is_heading_line ''####### TooDeep''" by code_simp
next
  show "md_to_html ''####### TooDeep'' = ''<p>####### TooDeep</p>''" by code_simp
qed

theorem heading_classification_witness:
  "is_heading_line (strip ''## Sub *x*  '') \<and> newline \<notin> set ''## Sub *x*  '' \<and>
   process_line init_state ''## Sub *x*  '' =
     \<lparr>html_parts = [''<h2>Sub <em>x</em></h2>''], current_paragraph = [], current_list = []\<rparr> \<and>
   \<not> is_heading_line (strip ''#hashtag'') \<and>
   html_parts (process_line init_state ''#hashtag'') = html_parts init_state"
proof -
  have h: "is_heading_line (strip ''## Sub *x*  '') \<and> newline \<notin> set ''## Sub *x*  ''"
    by code_simp
  have e: "(flush init_state)\<lparr>html_parts := html_parts (flush init_state) @
           [''<h'' @ str_nat (leading_hashes (strip ''## Sub *x*  '')) @ ''>'' @
            process_inline (strip (drop (leading_hashes (strip ''## Sub *x*  ''))
               (strip ''## Sub *x*  ''))) @
            ''</h'' @ str_nat (leading_hashes (strip ''## Sub *x*  '')) @ ''>'']\<rparr> =
     \<lparr>html_parts = [''<h2>Sub <em>x</em></h2>''], current_paragraph = [], current_list = []\<rparr>"
    by code_simp
  have n: "\<not> is_heading_line (strip ''#hashtag'')" by code_simp
  have p: "html_parts (process_line init_state ''#hashtag'') = html_parts init_state"
    by code_simp
  have "process_line init_state ''## Sub *x*  '' =
        (flush init_state)\<lparr>html_parts := html_parts (flush init_state) @
           [''<h'' @ str_nat (leading_hashes (strip ''## Sub *x*  '')) @ ''>'' @
            process_inline (strip (drop (leading_hashes (strip ''## Sub *x*  ''))
               (strip ''## Sub *x*  ''))) @
            ''</h'' @ str_nat (leading_hashes (strip ''## Sub *x*  '')) @ ''>'']\<rparr>"
    using heading_classification [of "[]" "''## Sub *x*  ''" init_state] h by blast
  then have "process_line init_state ''## Sub *x*  '' =
     \<lparr>html_parts = [''<h2>Sub <em>x</em></h2>''], current_paragraph = [], current_list = []\<rparr>"
    using e by (rule trans)
  with h n p show ?thesis by blast
qed

text \<open>
  C4. After every line the loop has processed, at most one of the two pending buffers
  holds something: this holds after one step from any state, and so after every prefix of
  the lines of a document. The other buffer is flushed before the mode is switched: a list
  item line that meets a pending paragraph, and a plain line that meets a pending list,
  first flush, and then start the new buffer with the line.
\<close>

theorem buffer_exclusivity:
  "buffers_exclusive (process_line st line) \<and>
   buffers_exclusive (foldl process_line init_state (take n (split_lines md_text))) \<and>
   (is_list_item_line line \<and> current_paragraph st \<noteq> [] \<longrightarrow>
      process_line st line = (flush st)\<lparr>current_list := [list_item_html (strip line)]\<rparr>) \<and>
   (is_plain_line line \<and> current_list st \<noteq> [] \<longrightarrow>
      process_line st line = (flush st)\<lparr>current_paragraph := [strip line]\<rparr>)"
proof (intro conjI impI)
  show "buffers_exclusive (process_line st line)" by (rule process_line_exclusive)
next
  have "buffers_exclusive init_state" by (simp add: buffers_exclusive_def init_state_def)
  then show "buffers_exclusive (foldl process_line init_state (take n (split_lines md_text)))"
    by (rule run_exclusive)
next
  assume a: "is_list_item_line line \<and> current_paragraph st \<noteq> []"
  then have "is_list_item_line line" by simp
  from list_item_not_heading [OF this] a
  show "process_line st line = (flush st)\<lparr>current_list := [list_item_html (strip line)]\<rparr>"
    by (simp add: process_line_cases flush_buffers)
next
  assume "is_plain_line line \<and> current_list st \<noteq> []"
  then show "process_line st line = (flush st)\<lparr>current_paragraph := [strip line]\<rparr>"
    by (simp add: process_line_cases flush_buffers is_plain_line_def)
qed

theorem buffer_exclusivity_witness:
  "is_list_item_line ''- a'' \<and>
   process_line \<lparr>html_parts = [], current_paragraph = [''x''], current_list = []\<rparr> ''- a'' =
     \<lparr>html_parts = [''<p>x</p>''], current_paragraph = [], current_list = [''<li>a</li>'']\<rparr> \<and>
   is_plain_line ''plain'' \<and>
   process_line \<lparr>html_parts = [], current_paragraph = [], current_list = [''<li>a</li>'']\<rparr>
       ''plain'' =
     \<lparr>html_parts = [''<ul><li>a</li></ul>''], current_paragraph = [''plain''],
      current_list = []\<rparr>"
proof -
  let ?p = "\<lparr>html_parts = [], current_paragraph = [''x''], current_list = []\<rparr>"
  let ?l = "\<lparr>html_parts = [], current_paragraph = [], current_list = [''<li>a</li>'']\<rparr>"
  have h1: "is_list_item_line ''- a'' \<and> current_paragraph ?p \<noteq> []" by code_simp
  have h2: "is_plain_line ''plain'' \<and> current_list ?l \<noteq> []" by code_simp
  have e1: "(flush ?p)\<lparr>current_list := [list_item_html (strip ''- a'')]\<rparr> =
      \<lparr>html_parts = [''<p>x</p>''], current_paragraph = [], current_list = [''<li>a</li>'']\<rparr>"
    by code_simp
  have e2: "(flush ?l)\<lparr>current_paragraph := [strip ''plain'']\<rparr> =
      \<lparr>html_parts = [''<ul><li>a</li></ul>''], current_paragraph = [''plain''],
       current_list = []\<rparr>"
    by code_simp
  have "process_line ?p ''- a'' = (flush ?p)\<lparr>current_list := [list_item_html (strip ''- a'')]\<rparr>"
    using buffer_exclusivity [of ?p "''- a''" 0 "[]"] h1 by blast
  then have r1: "process_line ?p ''- a'' =
      \<lparr>html_parts = [''<p>x</p>''], current_paragraph = [], current_list = [''<li>a</li>'']\<rparr>"
    using e1 by (rule trans)
  have "process_line ?l ''plain'' = (flush ?l)\<lparr>current_paragraph := [strip ''plain'']\<rparr>"
    using buffer_exclusivity [of ?l "''plain''" 0 "[]"] h2 by blast
  then have r2: "process_line ?l ''plain'' =
      \<lparr>html_parts = [''<ul><li>a</li></ul>''], current_paragraph = [''plain''],
       current_list = []\<rparr>"
    using e2 by (rule trans)
  from h1 h2 r1 r2 show ?thesis by blast
qed


text \<open>
  C9. The result does not depend on whether the lines end in a line feed or in a carriage
  return and a line feed: the text is split at the line feeds and every line is stripped
  before anything else is done with it, which removes a carriage return at its end.
\<close>

theorem crlf_insensitive:
  "md_to_html (replace_crlf md_text) = md_to_html md_text"
proof -
  have "foldl process_line init_state (split_lines (replace_crlf md_text)) =
      foldl process_line init_state (split_lines md_text)"
    using strip_lines_replace_crlf by (rule run_strip)
  then show ?thesis by (simp add: md_to_html_def)
qed

text \<open>
  C7. Consecutive plain text lines become one paragraph. The flush of a pending paragraph
  joins the buffered lines with one space, strips the result and emits
  \<open><p>...</p>\<close> only when the stripped text is not empty; the buffer is cleared in
  both cases. A document all of whose lines are plain text lines gives exactly one
  paragraph, and the lines \<open>Hello\<close> and \<open>world\<close> give \<open><p>Hello world</p>\<close>.
\<close>

theorem paragraph_reflow:
  "(current_paragraph st \<noteq> [] \<and> current_list st = [] \<longrightarrow>
      flush st = st\<lparr>html_parts := html_parts st @
        (if strip (join '' '' (current_paragraph st)) = [] then []
         else [''<p>'' @ process_inline (strip (join '' '' (current_paragraph st))) @ ''</p>'']),
        current_paragraph := []\<rparr>) \<and>
   ((\<forall>l \<in> set (split_lines md_text). is_plain_line l) \<longrightarrow>
      md_to_html md_text =
        ''<p>'' @ process_inline (strip (join '' '' (map strip (split_lines md_text)))) @ ''</p>'') \<and>
   md_to_html ''Hello\<newline>world'' = ''<p>Hello world</p>''"
proof (intro conjI impI)
  assume "current_paragraph st \<noteq> [] \<and> current_list st = []"
  then show "flush st = st\<lparr>html_parts := html_parts st @
        (if strip (join '' '' (current_paragraph st)) = [] then []
         else [''<p>'' @ process_inline (strip (join '' '' (current_paragraph st))) @ ''</p>'']),
        current_paragraph := []\<rparr>"
    by (intro flush_paragraph_only) simp_all
next
  assume "\<forall>l \<in> set (split_lines md_text). is_plain_line l"
  then show "md_to_html md_text =
      ''<p>'' @ process_inline (strip (join '' '' (map strip (split_lines md_text)))) @ ''</p>''"
    by (rule md_to_html_plain)
next
  show "md_to_html ''Hello\<newline>world'' = ''<p>Hello world</p>''" by code_simp
qed

theorem paragraph_reflow_witness:
  "list_all is_plain_line (split_lines ''one  \<newline>  *two* three\<newline>four'') \<and>
   md_to_html ''one  \<newline>  *two* three\<newline>four'' = ''<p>one <em>two</em> three four</p>'' \<and>
   flush \<lparr>html_parts = [''<h1>T</h1>''], current_paragraph = [''a'', ''b''], current_list = []\<rparr>
     = \<lparr>html_parts = [''<h1>T</h1>'', ''<p>a b</p>''], current_paragraph = [], current_list = []\<rparr>"
proof -
  let ?d = "''one  \<newline>  *two* three\<newline>four''"
  let ?s = "\<lparr>html_parts = [''<h1>T</h1>''], current_paragraph = [''a'', ''b''], current_list = []\<rparr>"
  have h: "\<forall>l \<in> set (split_lines ?d). is_plain_line l" by code_simp
  have e: "''<p>'' @ process_inline (strip (join '' '' (map strip (split_lines ?d)))) @ ''</p>''
      = ''<p>one <em>two</em> three four</p>''"
    by code_simp
  have "md_to_html ?d =
      ''<p>'' @ process_inline (strip (join '' '' (map strip (split_lines ?d)))) @ ''</p>''"
    using paragraph_reflow [of ?s ?d] h by blast
  then have r: "md_to_html ?d = ''<p>one <em>two</em> three four</p>''"
    using e by (rule trans)
  have hs: "current_paragraph ?s \<noteq> [] \<and> current_list ?s = []" by simp
  have es: "?s\<lparr>html_parts := html_parts ?s @
        (if strip (join '' '' (current_paragraph ?s)) = [] then []
         else [''<p>'' @ process_inline (strip (join '' '' (current_paragraph ?s))) @ ''</p>'']),
        current_paragraph := []\<rparr>
      = \<lparr>html_parts = [''<h1>T</h1>'', ''<p>a b</p>''], current_paragraph = [], current_list = []\<rparr>"
    by code_simp
  have "flush ?s = ?s\<lparr>html_parts := html_parts ?s @
        (if strip (join '' '' (current_paragraph ?s)) = [] then []
         else [''<p>'' @ process_inline (strip (join '' '' (current_paragraph ?s))) @ ''</p>'']),
        current_paragraph := []\<rparr>"
    using paragraph_reflow [of ?s ?d] hs by blast
  then have f: "flush ?s =
      \<lparr>html_parts = [''<h1>T</h1>'', ''<p>a b</p>''], current_paragraph = [], current_list = []\<rparr>"
    using es by (rule trans)
  from h r f show ?thesis by (simp only: list_all_iff)
qed

text \<open>
  C8. Consecutive list item lines are collected into one \<open><ul>\<close> block, and the flush
  after the last line emits a list that no blank line closed. The flush of a pending list
  emits the buffered items, without separators, between \<open><ul>\<close> and \<open></ul>\<close>; a
  document all of whose lines are list item lines gives exactly that one block, and the
  lines \<open>- one\<close> and \<open>- two\<close> give \<open><ul><li>one</li><li>two</li></ul>\<close>.
\<close>

theorem list_grouping:
  "(current_list st \<noteq> [] \<and> current_paragraph st = [] \<longrightarrow>
      flush st = st\<lparr>html_parts := html_parts st @
        [''<ul>'' @ concat (current_list st) @ ''</ul>''], current_list := []\<rparr>) \<and>
   ((\<forall>l \<in> set (split_lines md_text). is_list_item_line l) \<longrightarrow>
      md_to_html md_text =
        ''<ul>'' @ concat (map (\<lambda>l. ''<li>'' @ process_inline (strip (drop 2 (strip l))) @ ''</li>'')
                     (split_lines md_text)) @ ''</ul>'') \<and>
   md_to_html ''- one\<newline>- two'' = ''<ul><li>one</li><li>two</li></ul>''"
proof (intro conjI impI)
  assume "current_list st \<noteq> [] \<and> current_paragraph st = []"
  then show "flush st = st\<lparr>html_parts := html_parts st @
        [''<ul>'' @ concat (current_list st) @ ''</ul>''], current_list := []\<rparr>"
    by (intro flush_list_only) simp_all
next
  assume "\<forall>l \<in> set (split_lines md_text). is_list_item_line l"
  from md_to_html_list_items [OF this]
  show "md_to_html md_text =
      ''<ul>'' @ concat (map (\<lambda>l. ''<li>'' @ process_inline (strip (drop 2 (strip l))) @ ''</li>'')
                   (split_lines md_text)) @ ''</ul>''"
    by (simp only: list_item_html_def)
next
  show "md_to_html ''- one\<newline>- two'' = ''<ul><li>one</li><li>two</li></ul>''" by code_simp
qed

theorem list_grouping_witness:
  "list_all is_list_item_line (split_lines ''* x\<newline>  - **y**\<newline>- z '') \<and>
   md_to_html ''* x\<newline>  - **y**\<newline>- z '' =
     ''<ul><li>x</li><li><strong>y</strong></li><li>z</li></ul>'' \<and>
   flush \<lparr>html_parts = [], current_paragraph = [], current_list = [''<li>a</li>'', ''<li>b</li>'']\<rparr>
     = \<lparr>html_parts = [''<ul><li>a</li><li>b</li></ul>''], current_paragraph = [],
        current_list = []\<rparr>"
proof -
  let ?d = "''* x\<newline>  - **y**\<newline>- z ''"
  let ?s = "\<lparr>html_parts = [], current_paragraph = [],
             current_list = [''<li>a</li>'', ''<li>b</li>'']\<rparr>"
  have h: "\<forall>l \<in> set (split_lines ?d). is_list_item_line l" by code_simp
  have e: "''<ul>'' @ concat (map (\<lambda>l. ''<li>'' @ process_inline (strip (drop 2 (strip l))) @ ''</li>'')
                   (split_lines ?d)) @ ''</ul>''
      = ''<ul><li>x</li><li><strong>y</strong></li><li>z</li></ul>''"
    by code_simp
  have "md_to_html ?d =
      ''<ul>'' @ concat (map (\<lambda>l. ''<li>'' @ process_inline (strip (drop 2 (strip l))) @ ''</li>'')
                   (split_lines ?d)) @ ''</ul>''"
    using list_grouping [of ?s ?d] h by blast
  then have r: "md_to_html ?d = ''<ul><li>x</li><li><strong>y</strong></li><li>z</li></ul>''"
    using e by (rule trans)
  have hs: "current_list ?s \<noteq> [] \<and> current_paragraph ?s = []" by simp
  have es: "?s\<lparr>html_parts := html_parts ?s @
        [''<ul>'' @ concat (current_list ?s) @ ''</ul>''], current_list := []\<rparr>
      = \<lparr>html_parts = [''<ul><li>a</li><li>b</li></ul>''], current_paragraph = [],
         current_list = []\<rparr>"
    by simp
  have "flush ?s = ?s\<lparr>html_parts := html_parts ?s @
        [''<ul>'' @ concat (current_list ?s) @ ''</ul>''], current_list := []\<rparr>"
    using list_grouping [of ?s ?d] hs by blast
  then have f: "flush ?s = \<lparr>html_parts = [''<ul><li>a</li><li>b</li></ul>''],
      current_paragraph = [], current_list = []\<rparr>"
    using es by (rule trans)
  from h r f show ?thesis by (simp only: list_all_iff)
qed

text \<open>
  C5. Strong emphasis is substituted before single emphasis, and both passes match lazily
  and close a span only with the delimiter that opened it. In each pass a span runs from
  its opening delimiter to the first occurrence of the same delimiter, whatever follows,
  and the scan goes on after it. Through the whole formatter a text between \<open>**\<close> or
  \<open>__\<close> becomes a \<open><strong>\<close> element and a text between \<open>*\<close> or \<open>_\<close> an
  \<open><em>\<close> element. So \<open>**a** and **b**\<close> gives two \<open><strong>\<close> spans, and in
  \<open>**bold**\<close> the strong pass consumes the double delimiters before the emphasis pass
  runs, which on its own would read each \<open>**\<close> as an empty emphasis span. A
  \<open>*\<close> is not closed by \<open>_\<close>, nor \<open>**\<close> by \<open>__\<close>, and single emphasis inside
  a strong span is formatted after it.
\<close>

theorem strong_before_emphasis:
  "((d = ''**'' \<or> d = ''__'') \<and> set w \<inter> set d = {} \<and> newline \<notin> set w \<longrightarrow>
      re_sub [''**'', ''__''] ''<strong>'' ''</strong>'' (d @ w @ d @ r) =
        ''<strong>'' @ w @ ''</strong>'' @ re_sub [''**'', ''__''] ''<strong>'' ''</strong>'' r) \<and>
   ((e = ''*'' \<or> e = ''_'') \<and> set w \<inter> set e = {} \<and> newline \<notin> set w \<longrightarrow>
      re_sub [''*'', ''_''] ''<em>'' ''</em>'' (e @ w @ e @ r) =
        ''<em>'' @ w @ ''</em>'' @ re_sub [''*'', ''_''] ''<em>'' ''</em>'' r) \<and>
   (set w \<inter> set delimiter_chars = {} \<and> newline \<notin> set w \<longrightarrow>
      process_inline (''**'' @ w @ ''**'') = ''<strong>'' @ w @ ''</strong>'' \<and>
      process_inline (''__'' @ w @ ''__'') = ''<strong>'' @ w @ ''</strong>'' \<and>
      process_inline (''*'' @ w @ ''*'') = ''<em>'' @ w @ ''</em>'' \<and>
      process_inline (''_'' @ w @ ''_'') = ''<em>'' @ w @ ''</em>'') \<and>
   process_inline ''**a** and **b**'' = ''<strong>a</strong> and <strong>b</strong>'' \<and>
   process_inline ''*a* and *b*'' = ''<em>a</em> and <em>b</em>'' \<and>
   process_inline ''__a__ and _b_'' = ''<strong>a</strong> and <em>b</em>'' \<and>
   re_sub [''**'', ''__''] ''<strong>'' ''</strong>'' ''**bold**'' = ''<strong>bold</strong>'' \<and>
   process_inline ''**bold**'' = ''<strong>bold</strong>'' \<and>
   re_sub [''*'', ''_''] ''<em>'' ''</em>'' ''**bold**'' = ''<em></em>bold<em></em>'' \<and>
   process_inline ''**a *b* c**'' = ''<strong>a <em>b</em> c</strong>'' \<and>
   process_inline (''**bold** and *italic* and '' @ [CHR 0x60] @ ''code'' @ [CHR 0x60]) =
     ''<strong>bold</strong> and <em>italic</em> and <code>code</code>'' \<and>
   process_inline ''*a_b*c_'' = ''<em>a_b</em>c_'' \<and>
   re_sub [''**'', ''__''] ''<strong>'' ''</strong>'' ''**a__b**c__'' = ''<strong>a__b</strong>c__'' \<and>
   process_inline ''**a__'' = ''<em></em>a<em></em>''"
proof (intro conjI impI)
  assume "(d = ''**'' \<or> d = ''__'') \<and> set w \<inter> set d = {} \<and> newline \<notin> set w"
  then show "re_sub [''**'', ''__''] ''<strong>'' ''</strong>'' (d @ w @ d @ r) =
      ''<strong>'' @ w @ ''</strong>'' @ re_sub [''**'', ''__''] ''<strong>'' ''</strong>'' r"
    by (intro strong_span) simp_all
next
  assume "(e = ''*'' \<or> e = ''_'') \<and> set w \<inter> set e = {} \<and> newline \<notin> set w"
  then show "re_sub [''*'', ''_''] ''<em>'' ''</em>'' (e @ w @ e @ r) =
      ''<em>'' @ w @ ''</em>'' @ re_sub [''*'', ''_''] ''<em>'' ''</em>'' r"
    by (intro em_span) simp_all
next
  assume a: "set w \<inter> set delimiter_chars = {} \<and> newline \<notin> set w"
  show "process_inline (''**'' @ w @ ''**'') = ''<strong>'' @ w @ ''</strong>''"
    using a by (intro process_inline_double) simp_all
  show "process_inline (''__'' @ w @ ''__'') = ''<strong>'' @ w @ ''</strong>''"
    using a by (intro process_inline_double) simp_all
  show "process_inline (''*'' @ w @ ''*'') = ''<em>'' @ w @ ''</em>''"
    using a by (intro process_inline_single) simp_all
  show "process_inline (''_'' @ w @ ''_'') = ''<em>'' @ w @ ''</em>''"
    using a by (intro process_inline_single) simp_all
next
  show "process_inline ''**a** and **b**'' = ''<strong>a</strong> and <strong>b</strong>''"
    by code_simp
next
  show "process_inline ''*a* and *b*'' = ''<em>a</em> and <em>b</em>''" by code_simp
next
  show "process_inline ''__a__ and _b_'' = ''<strong>a</strong> and <em>b</em>''" by code_simp
next
  show "re_sub [''**'', ''__''] ''<strong>'' ''</strong>'' ''**bold**'' = ''<strong>bold</strong>''"
    by code_simp
next
  show "process_inline ''**bold**'' = ''<strong>bold</strong>''" by code_simp
next
  show "re_sub [''*'', ''_''] ''<em>'' ''</em>'' ''**bold**'' = ''<em></em>bold<em></em>''"
    by code_simp
next
  show "process_inline ''**a *b* c**'' = ''<strong>a <em>b</em> c</strong>''" by code_simp
next
  show "process_inline (''**bold** and *italic* and '' @ [CHR 0x60] @ ''code'' @ [CHR 0x60]) =
     ''<strong>bold</strong> and <em>italic</em> and <code>code</code>''"
    by code_simp
next
  show "process_inline ''*a_b*c_'' = ''<em>a_b</em>c_''" by code_simp
next
  show "re_sub [''**'', ''__''] ''<strong>'' ''</strong>'' ''**a__b**c__'' = ''<strong>a__b</strong>c__''"
    by code_simp
next
  show "process_inline ''**a__'' = ''<em></em>a<em></em>''" by code_simp
qed

theorem strong_before_emphasis_witness:
  "re_sub [''**'', ''__''] ''<strong>'' ''</strong>'' ''__x*y__ z__'' = ''<strong>x*y</strong> z__'' \<and>
   re_sub [''*'', ''_''] ''<em>'' ''</em>'' ''*x_y* z*'' = ''<em>x_y</em> z*'' \<and>
   process_inline ''**very bold**'' = ''<strong>very bold</strong>'' \<and>
   process_inline ''_slanted_'' = ''<em>slanted</em>''"
proof -
  have h1: "(''__'' = ''**'' \<or> ''__'' = ''__'') \<and> set ''x*y'' \<inter> set ''__'' = {} \<and>
      newline \<notin> set ''x*y''"
    by (simp add: newline_def)
  have h2: "(''*'' = ''*'' \<or> ''*'' = ''_'') \<and> set ''x_y'' \<inter> set ''*'' = {} \<and>
      newline \<notin> set ''x_y''"
    by (simp add: newline_def)
  have h3: "set ''very bold'' \<inter> set delimiter_chars = {} \<and> newline \<notin> set ''very bold''"
    by (simp add: delimiter_chars_def newline_def)
  have h4: "set ''slanted'' \<inter> set delimiter_chars = {} \<and> newline \<notin> set ''slanted''"
    by (simp add: delimiter_chars_def newline_def)
  have r1: "re_sub [''**'', ''__''] ''<strong>'' ''</strong>'' '' z__'' = '' z__''" by code_simp
  have r2: "re_sub [''*'', ''_''] ''<em>'' ''</em>'' '' z*'' = '' z*''" by code_simp
  have "re_sub [''**'', ''__''] ''<strong>'' ''</strong>'' (''__'' @ ''x*y'' @ ''__'' @ '' z__'') =
      ''<strong>'' @ ''x*y'' @ ''</strong>'' @ re_sub [''**'', ''__''] ''<strong>'' ''</strong>'' '' z__''"
    using strong_before_emphasis [of "''__''" "''x*y''" "'' z__''" "''*''"] h1 by blast
  then have a: "re_sub [''**'', ''__''] ''<strong>'' ''</strong>'' ''__x*y__ z__'' =
      ''<strong>x*y</strong> z__''"
    unfolding r1 by simp
  have "re_sub [''*'', ''_''] ''<em>'' ''</em>'' (''*'' @ ''x_y'' @ ''*'' @ '' z*'') =
      ''<em>'' @ ''x_y'' @ ''</em>'' @ re_sub [''*'', ''_''] ''<em>'' ''</em>'' '' z*''"
    using strong_before_emphasis [of "''**''" "''x_y''" "'' z*''" "''*''"] h2 by blast
  then have b: "re_sub [''*'', ''_''] ''<em>'' ''</em>'' ''*x_y* z*'' = ''<em>x_y</em> z*''"
    unfolding r2 by simp
  have "process_inline (''**'' @ ''very bold'' @ ''**'') = ''<strong>'' @ ''very bold'' @ ''</strong>''"
    using strong_before_emphasis [of "''**''" "''very bold''" "[]" "''*''"] h3 by blast
  then have c: "process_inline ''**very bold**'' = ''<strong>very bold</strong>''" by simp
  have "process_inline (''_'' @ ''slanted'' @ ''_'') = ''<em>'' @ ''slanted'' @ ''</em>''"
    using strong_before_emphasis [of "''**''" "''slanted''" "[]" "''*''"] h4 by blast
  then have d: "process_inline ''_slanted_'' = ''<em>slanted</em>''" by simp
  from a b c d show ?thesis by blast
qed

end
